theory Spec2Isabelle
  imports Complex_Main "HOL-Library.Option_ord" "HOL-Library.Sublist"
begin

section \<open>Configuration (app/config.py)\<close>

text \<open>
  \<open>Settings\<close> holds the values read from the environment. Only the fields the quota
  engine and the reducer read are kept. The fields are prefixed with \<open>settings_\<close>
  because the limiter has fields of the same names.
\<close>

record Settings =
  settings_top_k :: int
  settings_requests_per_minute :: int
  settings_tokens_per_minute :: int
  settings_rate_limit_tpm :: int

definition default_settings :: Settings where
  "default_settings =
     \<lparr>settings_top_k = 64, settings_requests_per_minute = 60,
      settings_tokens_per_minute = 20000, settings_rate_limit_tpm = 20000\<rparr>"

section \<open>Rate limiter (app/rate_limit.py)\<close>

text \<open>
  A \<open>Quota\<close> holds the two deques of one identity. Timestamps are the readings of
  \<open>time()\<close>, modelled as real numbers; token counts are Python integers.
\<close>

record Quota =
  reqs :: "real list"
  tokens :: "(real \<times> int) list"

record RateLimiter =
  requests_per_minute :: int
  tokens_per_minute :: int
  store :: "string \<rightharpoonup> Quota"

text \<open>The exception raised by \<open>check\<close>, with the fields the source sets.\<close>

record HTTPException =
  status_code :: int
  detail :: string
  headers :: "(string \<times> string) list"

definition request_rate_exceeded :: HTTPException where
  "request_rate_exceeded =
     \<lparr>status_code = 429,
      detail = ''Rate limit exceeded: too many requests per minute'',
      headers = [(''Retry-After'', ''60'')]\<rparr>"

definition token_rate_exceeded :: HTTPException where
  "token_rate_exceeded =
     \<lparr>status_code = 429,
      detail = ''Rate limit exceeded: too many tokens per minute'',
      headers = [(''Retry-After'', ''60'')]\<rparr>"

text \<open>Python's \<open>a or b\<close> on integers: \<open>a\<close> unless it is zero.\<close>

definition py_or :: "int \<Rightarrow> int \<Rightarrow> int" where
  "py_or a b = (if a \<noteq> 0 then a else b)"

text \<open>
  \<open>RateLimiter.__init__\<close>: the token ceiling is
  \<open>tokens_per_minute or settings.tokens_per_minute or settings.rate_limit_tpm\<close>.
\<close>

definition RateLimiter_init :: "Settings \<Rightarrow> int \<Rightarrow> int \<Rightarrow> RateLimiter" where
  "RateLimiter_init settings rpm tpm =
     \<lparr>requests_per_minute = rpm,
      tokens_per_minute =
        py_or tpm (py_or (settings_tokens_per_minute settings) (settings_rate_limit_tpm settings)),
      store = Map.empty\<rparr>"

definition get_rate_limiter :: "Settings \<Rightarrow> RateLimiter" where
  "get_rate_limiter settings =
     RateLimiter_init settings (settings_requests_per_minute settings)
       (py_or (settings_tokens_per_minute settings) (settings_rate_limit_tpm settings))"

text \<open>\<open>_get_quota\<close> creates the identity's quota when it is absent and returns it.\<close>

definition get_quota :: "RateLimiter \<Rightarrow> string \<Rightarrow> Quota \<times> RateLimiter" where
  "get_quota self identity =
     (case store self identity of
        None \<Rightarrow>
          (let q = \<lparr>reqs = [], tokens = []\<rparr>
           in (q, self\<lparr>store := (store self)(identity \<mapsto> q)\<rparr>))
      | Some q \<Rightarrow> (q, self))"

text \<open>
  \<open>check\<close>, with the clock reading \<open>now\<close> as an argument. The two \<open>while\<close> loops pop
  from the left while the first entry is not after \<open>window_start\<close>, which is
  \<open>dropWhile\<close>. The quota object is shared with the store, so what the loops pop is
  gone from the store whether the call then raises or not: the result is the outcome
  together with the limiter after the call.
\<close>

definition check ::
  "RateLimiter \<Rightarrow> real \<Rightarrow> string \<Rightarrow> int \<Rightarrow> (HTTPException + unit) \<times> RateLimiter" where
  "check self now identity toks =
     (let (quota, self1) = get_quota self identity;
          window_start = now - 60;
          quota1 = quota\<lparr>reqs := dropWhile (\<lambda>t. t \<le> window_start) (reqs quota)\<rparr>;
          quota2 = quota1\<lparr>tokens := dropWhile (\<lambda>e. fst e \<le> window_start) (tokens quota1)\<rparr>;
          self2 = self1\<lparr>store := (store self1)(identity \<mapsto> quota2)\<rparr>
      in if requests_per_minute self > 0
            \<and> int (length (reqs quota2)) \<ge> requests_per_minute self
         then (Inl request_rate_exceeded, self2)
         else
           let total_tokens = sum_list (map snd (tokens quota2))
           in if tokens_per_minute self > 0 \<and> total_tokens + toks > tokens_per_minute self
              then (Inl token_rate_exceeded, self2)
              else (Inr (),
                    self2\<lparr>store := (store self2)(identity \<mapsto>
                      quota2\<lparr>reqs := reqs quota2 @ [now],
                             tokens := tokens quota2 @ [(now, toks)]\<rparr>)\<rparr>))"

text \<open>
  A call is the clock reading at which it happens, the identity and the token count.
  \<open>admitted self calls\<close> runs the calls in order from the limiter \<open>self\<close> and lists
  those that were admitted; \<open>run_checks\<close> gives the limiter after them.
\<close>

type_synonym call = "real \<times> string \<times> int"

definition call_time :: "call \<Rightarrow> real" where
  "call_time c = fst c"

definition call_identity :: "call \<Rightarrow> string" where
  "call_identity c = fst (snd c)"

definition call_tokens :: "call \<Rightarrow> int" where
  "call_tokens c = snd (snd c)"

fun admitted :: "RateLimiter \<Rightarrow> call list \<Rightarrow> call list" where
  "admitted self [] = []"
| "admitted self (c # cs) =
     (case check self (call_time c) (call_identity c) (call_tokens c) of
        (Inl e, self') \<Rightarrow> admitted self' cs
      | (Inr u, self') \<Rightarrow> c # admitted self' cs)"

fun run_checks :: "RateLimiter \<Rightarrow> call list \<Rightarrow> RateLimiter" where
  "run_checks self [] = self"
| "run_checks self (c # cs) =
     run_checks (snd (check self (call_time c) (call_identity c) (call_tokens c))) cs"

text \<open>
  The admitted calls of one identity inside the trailing window that ends at \<open>T\<close>.
  An entry whose timestamp is exactly \<open>T - 60\<close> is purged by \<open>check\<close>, so the window
  is open on the left.
\<close>

definition in_window :: "string \<Rightarrow> real \<Rightarrow> call list \<Rightarrow> call list" where
  "in_window identity T cs =
     filter (\<lambda>c. call_identity c = identity \<and> T - 60 < call_time c \<and> call_time c \<le> T) cs"

text \<open>
  Notions used to state and prove the properties of the limiter. \<open>quota_of\<close> reads an
  identity's quota, an absent one being empty, as \<open>_get_quota\<close> would create it;
  \<open>purged\<close> is what the two \<open>while\<close> loops of \<open>check\<close> leave; \<open>entries\<close> lists the
  (timestamp, tokens) pairs of an identity's admitted calls.
\<close>

definition quota_of :: "RateLimiter \<Rightarrow> string \<Rightarrow> Quota" where
  "quota_of self identity =
     (case store self identity of None \<Rightarrow> \<lparr>reqs = [], tokens = []\<rparr> | Some q \<Rightarrow> q)"

definition purged :: "real \<Rightarrow> Quota \<Rightarrow> Quota" where
  "purged window_start q =
     \<lparr>reqs = dropWhile (\<lambda>t. t \<le> window_start) (reqs q),
      tokens = dropWhile (\<lambda>e. fst e \<le> window_start) (tokens q)\<rparr>"

definition entries :: "string \<Rightarrow> call list \<Rightarrow> (real \<times> int) list" where
  "entries identity hist =
     map (\<lambda>c. (call_time c, call_tokens c)) (filter (\<lambda>c. call_identity c = identity) hist)"

definition limiter_inv :: "RateLimiter \<Rightarrow> call list \<Rightarrow> real \<Rightarrow> bool" where
  "limiter_inv self hist t0 \<longleftrightarrow>
     (\<forall>i. reqs (quota_of self i) = map fst (tokens (quota_of self i))
        \<and> (\<exists>old. entries i hist = old @ tokens (quota_of self i)
              \<and> (\<forall>e\<in>set old. fst e \<le> t0 - 60)))"

text \<open>
  The scenarios of the specification: two requests a minute and a hundred tokens, three
  calls one second apart (A); five requests a minute, 60 tokens then 50 (B).
\<close>

definition scenario_A :: "call list" where
  "scenario_A = [(0, ''id'', 10), (1, ''id'', 20), (2, ''id'', 1)]"

definition scenario_B :: "call list" where
  "scenario_B = [(0, ''id'', 60), (1, ''id'', 50)]"

text \<open>A limiter after one admitted call of 60 tokens at time 0.\<close>

definition limiter_after_first :: RateLimiter where
  "limiter_after_first = snd (check (RateLimiter_init default_settings 2 100) 0 ''id'' 60)"

text \<open>Clock readings that go backwards twice (from 160 to 101 and from 220 to 102).\<close>

definition backward_clock_calls :: "call list" where
  "backward_clock_calls =
     [(100, ''id'', 1), (160, ''id'', 1), (101, ''id'', 1), (220, ''id'', 1), (102, ''id'', 1)]"

section \<open>Context reducer (app/services/qr_retriever.py)\<close>

text \<open>
  Exceptions that the Python of \<open>reduce\<close> can raise by itself: \<open>len\<close> or a slice of
  a number (\<open>TypeError\<close>), an index out of range (\<open>IndexError\<close>) and a tensor
  operation refused by the tensor library (\<open>RuntimeError\<close>).
\<close>

datatype py_error = TypeError | IndexError | RuntimeError

text \<open>
  What \<open>_load_model\<close> returns. The tokenizer and the language model are libraries
  outside the repository and are parameters of the development:
  \<^item> \<open>tokenizer text\<close> is the row of \<open>tokenizer(text, return_tensors="pt").input_ids\<close>;
  \<^item> \<open>tokenizer_decode ids\<close> is \<open>tokenizer.decode(ids, skip_special_tokens=True)\<close>;
  \<^item> \<open>attentions ids\<close> is \<open>outputs.attentions\<close> of the model on \<open>ids\<close>, reduced to what
    \<open>reduce\<close> reads: for each layer and each head the row \<open>[0, head, 0, :]\<close>;
  \<^item> \<open>retrieval_heads\<close> is the list of (layer, head) pairs, empty when no adapter
    declares any.
\<close>

record Loaded =
  tokenizer :: "string \<Rightarrow> int list"
  tokenizer_decode :: "int list \<Rightarrow> string"
  attentions :: "int list \<Rightarrow> real list list list"
  retrieval_heads :: "(int \<times> int) list"

text \<open>The separator \<open>"\n\n### CONTEXT ###\n\n"\<close>.\<close>

definition sep :: string where
  "sep = [CHR 0x0A, CHR 0x0A] @ ''### CONTEXT ###'' @ [CHR 0x0A, CHR 0x0A]"

text \<open>
  \<open>t.squeeze().tolist()\<close> on a tensor of shape (1, n): squeezing drops every dimension
  of size 1, so for \<open>n = 1\<close> the tensor becomes a scalar and \<open>tolist\<close> gives a number,
  not a list; \<open>len\<close> and slicing then raise \<open>TypeError\<close>.
\<close>

datatype 'a py_value = PyScalar 'a | PyList "'a list"

definition squeeze_tolist :: "'a list \<Rightarrow> 'a py_value" where
  "squeeze_tolist xs = (case xs of [x] \<Rightarrow> PyScalar x | _ \<Rightarrow> PyList xs)"

definition py_len :: "'a py_value \<Rightarrow> py_error + nat" where
  "py_len v = (case v of PyScalar x \<Rightarrow> Inl TypeError | PyList xs \<Rightarrow> Inr (length xs))"

text \<open>Python's slice bound: a negative index counts from the end, and both ends clamp.\<close>

definition slice_bound :: "nat \<Rightarrow> int \<Rightarrow> nat" where
  "slice_bound n i = (if i < 0 then nat (max 0 (int n + i)) else min (nat i) n)"

definition slice_from :: "'a list \<Rightarrow> int \<Rightarrow> 'a list" where
  "slice_from xs i = drop (slice_bound (length xs) i) xs"

definition slice_to :: "'a list \<Rightarrow> int \<Rightarrow> 'a list" where
  "slice_to xs i = take (slice_bound (length xs) i) xs"

definition py_slice_from :: "'a py_value \<Rightarrow> int \<Rightarrow> py_error + 'a list" where
  "py_slice_from v i =
     (case v of PyScalar x \<Rightarrow> Inl TypeError | PyList xs \<Rightarrow> Inr (slice_from xs i))"

text \<open>Python's indexing of a tuple or of a tensor dimension.\<close>

definition py_index :: "'a list \<Rightarrow> int \<Rightarrow> py_error + 'a" where
  "py_index xs i =
     (if 0 \<le> i \<and> i < int (length xs) then Inr (xs ! nat i)
      else if - int (length xs) \<le> i \<and> i < 0 then Inr (xs ! nat (int (length xs) + i))
      else Inl IndexError)"

text \<open>
  \<open>query_len + sep_len\<close>: the lengths of the separator and of the query, each
  tokenized on its own (the separator first, as in the source).
\<close>

definition start_index :: "Loaded \<Rightarrow> string \<Rightarrow> py_error + nat" where
  "start_index loaded query =
     (case py_len (squeeze_tolist (tokenizer loaded sep)) of
        Inl e \<Rightarrow> Inl e
      | Inr sep_len \<Rightarrow>
          (case py_len (squeeze_tolist (tokenizer loaded query)) of
             Inl e \<Rightarrow> Inl e
           | Inr query_len \<Rightarrow> Inr (query_len + sep_len)))"

text \<open>
  The fallback branch (no retrieval heads): the token ids kept from \<open>input_ids\<close>.
\<close>

definition fallback_keep :: "int \<Rightarrow> int list \<Rightarrow> int list" where
  "fallback_keep top_k context_ids =
     (let half = max (top_k div 2) 1
      in if int (length context_ids) \<le> top_k then context_ids
         else slice_to context_ids half @ slice_from context_ids (- half))"

definition fallback_select :: "Loaded \<Rightarrow> string \<Rightarrow> int list \<Rightarrow> int \<Rightarrow> py_error + int list" where
  "fallback_select loaded query input_ids top_k =
     (case start_index loaded query of
        Inl e \<Rightarrow> Inl e
      | Inr start_idx \<Rightarrow>
          (case py_slice_from (squeeze_tolist input_ids) (int start_idx) of
             Inl e \<Rightarrow> Inl e
           | Inr context_ids \<Rightarrow> Inr (fallback_keep top_k context_ids)))"

text \<open>
  The oracle branch. \<open>relevance += attn_scores\<close> adds two vectors of the same length
  (a vector of length one is broadcast; any other length is refused).
\<close>

definition iadd :: "real list \<Rightarrow> real list \<Rightarrow> py_error + real list" where
  "iadd relevance attn_scores =
     (if length attn_scores = length relevance then Inr (map2 (+) relevance attn_scores)
      else if length attn_scores = 1 then Inr (map (\<lambda>x. x + hd attn_scores) relevance)
      else Inl RuntimeError)"

fun accumulate_relevance ::
  "real list list list \<Rightarrow> (int \<times> int) list \<Rightarrow> real list \<Rightarrow> py_error + real list" where
  "accumulate_relevance att [] relevance = Inr relevance"
| "accumulate_relevance att ((layer_idx, head_idx) # hs) relevance =
     (case py_index att layer_idx of
        Inl e \<Rightarrow> Inl e
      | Inr layer \<Rightarrow>
          (case py_index layer head_idx of
             Inl e \<Rightarrow> Inl e
           | Inr attn_scores \<Rightarrow>
               (case iadd relevance attn_scores of
                  Inl e \<Rightarrow> Inl e
                | Inr r \<Rightarrow> accumulate_relevance att hs r)))"

text \<open>
  A score is \<open>Some x\<close> or \<open>None\<close> for minus infinity, which is below every \<open>Some x\<close>.
  \<open>mask_prefix p relevance\<close> is \<open>relevance[:p] = -inf\<close>.
\<close>

type_synonym score = "real option"

definition mask_prefix :: "nat \<Rightarrow> real list \<Rightarrow> score list" where
  "mask_prefix p relevance =
     replicate (min p (length relevance)) None @ map Some (drop p relevance)"

text \<open>
  \<open>torch.topk(scores, k)\<close> for \<open>k \<le> length scores\<close>: the positions of the \<open>k\<close> largest
  scores, largest first. The library leaves the choice among equal scores open; the
  model takes the lower position first, as the specification fixes it.
\<close>

definition topk :: "score list \<Rightarrow> nat \<Rightarrow> nat list" where
  "topk scores k = take k (rev (sort_key (\<lambda>i. scores ! i) (rev [0..<length scores])))"

text \<open>
  The positions the oracle branch selects, in reading order (\<open>sorted_indices\<close>).
  \<open>torch.topk\<close> refuses a negative \<open>k\<close>.
\<close>

definition oracle_positions :: "Loaded \<Rightarrow> string \<Rightarrow> int list \<Rightarrow> int \<Rightarrow> py_error + nat list" where
  "oracle_positions loaded query input_ids top_k =
     (let seq_len = length input_ids
      in case accumulate_relevance (attentions loaded input_ids) (retrieval_heads loaded)
                (replicate seq_len 0) of
           Inl e \<Rightarrow> Inl e
         | Inr summed \<Rightarrow>
             (let relevance = map (\<lambda>x. x / real (max (length (retrieval_heads loaded)) 1)) summed
              in case start_index loaded query of
                   Inl e \<Rightarrow> Inl e
                 | Inr p \<Rightarrow>
                     (let k = min top_k (int seq_len)
                      in if k < 0 then Inl RuntimeError
                         else Inr (sort (topk (mask_prefix p relevance) (nat k))))))"

text \<open>
  \<open>input_ids.squeeze()[sorted_indices]\<close>: a sequence of one token squeezes to a scalar,
  which cannot be indexed.
\<close>

definition oracle_select :: "Loaded \<Rightarrow> string \<Rightarrow> int list \<Rightarrow> int \<Rightarrow> py_error + int list" where
  "oracle_select loaded query input_ids top_k =
     (case oracle_positions loaded query input_ids top_k of
        Inl e \<Rightarrow> Inl e
      | Inr sorted_indices \<Rightarrow>
          (case squeeze_tolist input_ids of
             PyScalar x \<Rightarrow> Inl IndexError
           | PyList ids \<Rightarrow> Inr (map (\<lambda>i. ids ! i) sorted_indices)))"

text \<open>
  \<open>select_ids\<close> is \<open>reduce\<close> up to the choice of the token ids that survive; \<open>reduce\<close>
  decodes them and counts. \<open>top_k = None\<close> takes \<open>settings.top_k\<close>.
\<close>

definition input_ids_of :: "Loaded \<Rightarrow> string \<Rightarrow> string \<Rightarrow> int list" where
  "input_ids_of loaded query context = tokenizer loaded (query @ sep @ context)"

definition effective_top_k :: "Settings \<Rightarrow> int option \<Rightarrow> int" where
  "effective_top_k settings top_k_opt =
     (case top_k_opt of None \<Rightarrow> settings_top_k settings | Some k \<Rightarrow> k)"

definition select_ids ::
  "Settings \<Rightarrow> Loaded \<Rightarrow> string \<Rightarrow> string \<Rightarrow> int option \<Rightarrow> py_error + int list" where
  "select_ids settings loaded query context top_k_opt =
     (let top_k = effective_top_k settings top_k_opt;
          input_ids = input_ids_of loaded query context
      in if retrieval_heads loaded = [] then fallback_select loaded query input_ids top_k
         else oracle_select loaded query input_ids top_k)"

definition reduce ::
  "Settings \<Rightarrow> Loaded \<Rightarrow> string \<Rightarrow> string \<Rightarrow> int option \<Rightarrow> py_error + (string \<times> int \<times> int)" where
  "reduce settings loaded query context top_k_opt =
     (let tokens_before = int (length (input_ids_of loaded query context))
      in case select_ids settings loaded query context top_k_opt of
           Inl e \<Rightarrow> Inl e
         | Inr selected \<Rightarrow>
             Inr (tokenizer_decode loaded selected, tokens_before, int (length selected)))"

text \<open>\<open>compress\<close> (app/compression.py) calls \<open>reduce\<close> without a \<open>top_k\<close>.\<close>

definition compress ::
  "Settings \<Rightarrow> Loaded \<Rightarrow> string \<Rightarrow> string \<Rightarrow> py_error + (string \<times> int \<times> int)" where
  "compress settings loaded query context = reduce settings loaded query context None"

text \<open>
  Notions used to state the properties of the reducer. \<open>fallback_positions top_k c\<close>
  lists the positions, inside a context of \<open>c\<close> tokens, of the tokens that
  \<open>fallback_keep\<close> keeps.
\<close>

definition fallback_positions :: "int \<Rightarrow> nat \<Rightarrow> nat list" where
  "fallback_positions top_k c =
     (if int c \<le> top_k then [0..<c]
      else [0..<min (nat (max (top_k div 2) 1)) c] @ [c - nat (max (top_k div 2) 1)..<c])"

text \<open>
  The fallback as the specification words it, for comparison with \<open>fallback_keep\<close>:
  a context of at most \<open>top_k\<close> tokens is kept; otherwise the first \<open>\<lceil>top_k/2\<rceil>\<close> and the
  last \<open>\<lfloor>top_k/2\<rfloor>\<close> tokens are kept, at least one on each side.
\<close>

definition spec_fallback_keep :: "int \<Rightarrow> int list \<Rightarrow> int list" where
  "spec_fallback_keep top_k context_ids =
     (if int (length context_ids) \<le> top_k then context_ids
      else take (nat (max ((top_k + 1) div 2) 1)) context_ids
           @ drop (length context_ids - nat (max (top_k div 2) 1)) context_ids)"

text \<open>
  Two concrete environments for the examples. The tokenizer has one token for each
  byte of the text and adds no special token; decoding inverts it. \<open>byte_fallback\<close>
  has no retrieval heads. \<open>byte_oracle\<close> has one retrieval head, and its attention row
  is that of a causal model, where the first position attends to itself only.
\<close>

definition byte_tokenizer :: "string \<Rightarrow> int list" where
  "byte_tokenizer s = map of_char s"

definition byte_decode :: "int list \<Rightarrow> string" where
  "byte_decode ids = map char_of ids"

definition first_token_attention :: "int list \<Rightarrow> real list list list" where
  "first_token_attention ids =
     [[case ids of [] \<Rightarrow> [] | x # xs \<Rightarrow> 1 # replicate (length xs) 0]]"

definition byte_fallback :: Loaded where
  "byte_fallback =
     \<lparr>tokenizer = byte_tokenizer, tokenizer_decode = byte_decode,
      attentions = (\<lambda>ids. []), retrieval_heads = []\<rparr>"

definition byte_oracle :: Loaded where
  "byte_oracle =
     \<lparr>tokenizer = byte_tokenizer, tokenizer_decode = byte_decode,
      attentions = first_token_attention, retrieval_heads = [(0, 0)]\<rparr>"

text \<open>
  A third environment, whose tokenizer puts the special token 1 in front of every
  text it tokenizes, and whose decoding skips that token.
\<close>

definition bos_tokenizer :: "string \<Rightarrow> int list" where
  "bos_tokenizer s = 1 # map of_char s"

definition bos_decode :: "int list \<Rightarrow> string" where
  "bos_decode ids = map char_of (filter (\<lambda>i. i \<noteq> 1) ids)"

definition bos_fallback :: Loaded where
  "bos_fallback =
     \<lparr>tokenizer = bos_tokenizer, tokenizer_decode = bos_decode,
      attentions = (\<lambda>ids. []), retrieval_heads = []\<rparr>"

section \<open>Properties of the rate limiter\<close>

subsection \<open>The step \<open>check\<close>\<close>

lemma quota_update_eq: "q\<lparr>reqs := a, tokens := b\<rparr> = \<lparr>reqs = a, tokens = b\<rparr>"
  by (cases q) simp

lemma check_eq:
  "check self now i k =
     (let q2 = purged (now - 60) (quota_of self i);
          self2 = self\<lparr>store := (store self)(i \<mapsto> q2)\<rparr>
      in if requests_per_minute self > 0 \<and> int (length (reqs q2)) \<ge> requests_per_minute self
         then (Inl request_rate_exceeded, self2)
         else if tokens_per_minute self > 0
                 \<and> sum_list (map snd (tokens q2)) + k > tokens_per_minute self
         then (Inl token_rate_exceeded, self2)
         else (Inr (), self\<lparr>store := (store self)(i \<mapsto>
                 \<lparr>reqs = reqs q2 @ [now], tokens = tokens q2 @ [(now, k)]\<rparr>)\<rparr>))"
  by (auto simp add: check_def get_quota_def purged_def quota_of_def Let_def quota_update_eq
      split: option.split)

lemma check_ceilings:
  "requests_per_minute (snd (check self now i k)) = requests_per_minute self"
  "tokens_per_minute (snd (check self now i k)) = tokens_per_minute self"
  by (simp_all add: check_eq Let_def)

lemma quota_of_check_other:
  "j \<noteq> i \<Longrightarrow> quota_of (snd (check self now i k)) j = quota_of self j"
  by (simp add: check_eq Let_def quota_of_def)

lemma quota_of_check_same:
  "quota_of (snd (check self now i k)) i =
     (if isl (fst (check self now i k)) then purged (now - 60) (quota_of self i)
      else \<lparr>reqs = reqs (purged (now - 60) (quota_of self i)) @ [now],
            tokens = tokens (purged (now - 60) (quota_of self i)) @ [(now, k)]\<rparr>)"
  by (simp add: check_eq Let_def quota_of_def)

lemma entries_append: "entries i (hs @ [c]) =
    entries i hs @ (if call_identity c = i then [(call_time c, call_tokens c)] else [])"
  by (simp add: entries_def)

lemma inv_step:
  assumes inv: "limiter_inv self hist t0" and le: "t0 \<le> call_time c"
  shows "limiter_inv (snd (check self (call_time c) (call_identity c) (call_tokens c)))
           (if isl (fst (check self (call_time c) (call_identity c) (call_tokens c)))
            then hist else hist @ [c]) (call_time c)"
  unfolding limiter_inv_def
proof (intro allI)
  fix j
  let ?now = "call_time c" and ?i = "call_identity c" and ?k = "call_tokens c"
  let ?r = "check self ?now ?i ?k"
  let ?hist' = "if isl (fst ?r) then hist else hist @ [c]"
  let ?P = "\<lambda>e::real \<times> int. fst e \<le> ?now - 60"
  from inv obtain old where rq: "reqs (quota_of self j) = map fst (tokens (quota_of self j))"
    and en: "entries j hist = old @ tokens (quota_of self j)"
    and old: "\<forall>e\<in>set old. fst e \<le> t0 - 60"
    unfolding limiter_inv_def by blast
  from old le have old': "\<forall>e\<in>set old. fst e \<le> ?now - 60" by fastforce
  show "reqs (quota_of (snd ?r) j) = map fst (tokens (quota_of (snd ?r) j)) \<and>
        (\<exists>old. entries j ?hist' = old @ tokens (quota_of (snd ?r) j) \<and>
               (\<forall>e\<in>set old. fst e \<le> ?now - 60))"
  proof (cases "j = ?i")
    case False
    then have q: "quota_of (snd ?r) j = quota_of self j"
      by (simp add: quota_of_check_other)
    from False have "entries j ?hist' = entries j hist"
      by (simp add: entries_append)
    with q rq en old' show ?thesis by auto
  next
    case True
    let ?tq = "tokens (quota_of self j)"
    have pr: "reqs (purged (?now - 60) (quota_of self j)) = map fst (dropWhile ?P ?tq)"
      by (simp add: purged_def rq dropWhile_map comp_def)
    have pt: "tokens (purged (?now - 60) (quota_of self j)) = dropWhile ?P ?tq"
      by (simp add: purged_def)
    have split: "entries j hist = (old @ takeWhile ?P ?tq) @ dropWhile ?P ?tq"
      by (simp add: en)
    have old2: "\<forall>e\<in>set (old @ takeWhile ?P ?tq). fst e \<le> ?now - 60"
      using old' by (auto dest: set_takeWhileD)
    let ?old = "old @ takeWhile ?P ?tq"
    have "reqs (quota_of (snd ?r) j) = map fst (tokens (quota_of (snd ?r) j))
          \<and> entries j ?hist' = ?old @ tokens (quota_of (snd ?r) j)"
    proof (cases "isl (fst ?r)")
      case rej: True
      have q: "quota_of (snd ?r) j = purged (?now - 60) (quota_of self j)"
        using rej True by (simp add: quota_of_check_same)
      show ?thesis using rej split by (simp add: q pr pt)
    next
      case adm: False
      have q: "quota_of (snd ?r) j =
          \<lparr>reqs = map fst (dropWhile ?P ?tq) @ [?now], tokens = dropWhile ?P ?tq @ [(?now, ?k)]\<rparr>"
        using adm True pr pt by (simp add: quota_of_check_same)
      have "entries j (hist @ [c]) = ?old @ (dropWhile ?P ?tq @ [(?now, ?k)])"
        using True en by (simp add: entries_append)
      with adm show ?thesis by (simp add: q)
    qed
    with old2 show ?thesis by blast
  qed
qed

lemma filter_recent_entries:
  assumes inv: "limiter_inv self hist t0" and le: "t0 \<le> now"
  shows "filter (\<lambda>e. now - 60 < fst e) (entries i hist) =
         filter (\<lambda>e. now - 60 < fst e) (tokens (purged (now - 60) (quota_of self i)))"
proof -
  let ?P = "\<lambda>e::real \<times> int. fst e \<le> now - 60"
  let ?tq = "tokens (quota_of self i)"
  from inv obtain old where en: "entries i hist = old @ ?tq"
    and old: "\<forall>e\<in>set old. fst e \<le> t0 - 60"
    unfolding limiter_inv_def by blast
  from old le have "filter (\<lambda>e. now - 60 < fst e) old = []"
    by (fastforce simp add: filter_empty_conv)
  moreover have "filter (\<lambda>e. now - 60 < fst e) (takeWhile ?P ?tq) = []"
    by (fastforce simp add: filter_empty_conv dest: set_takeWhileD)
  moreover have "?tq = takeWhile ?P ?tq @ dropWhile ?P ?tq" by simp
  ultimately have "filter (\<lambda>e. now - 60 < fst e) (entries i hist) =
      filter (\<lambda>e. now - 60 < fst e) (dropWhile ?P ?tq)"
    by (metis en filter_append append_Nil)
  then show ?thesis by (simp add: purged_def)
qed


lemma check_admitted_requests:
  assumes "fst (check self now i k) = Inr ()" and "0 < requests_per_minute self"
  shows "int (length (reqs (purged (now - 60) (quota_of self i)))) < requests_per_minute self"
  using assms by (auto simp add: check_eq Let_def split: if_splits)

lemma check_admitted_tokens:
  assumes "fst (check self now i k) = Inr ()" and "0 < tokens_per_minute self"
  shows "sum_list (map snd (tokens (purged (now - 60) (quota_of self i)))) + k
           \<le> tokens_per_minute self"
  using assms by (auto simp add: check_eq Let_def split: if_splits)

lemma purged_reqs:
  "reqs q = map fst (tokens q) \<Longrightarrow> reqs (purged ws q) = map fst (tokens (purged ws q))"
  by (simp add: purged_def dropWhile_map comp_def)

lemma length_filter_mono:
  "(\<And>x. x \<in> set xs \<Longrightarrow> P x \<Longrightarrow> Q x) \<Longrightarrow> length (filter P xs) \<le> length (filter Q xs)"
  by (induction xs) auto

lemma sum_filter_mono:
  fixes f :: "'a \<Rightarrow> int"
  shows "(\<And>x. x \<in> set xs \<Longrightarrow> 0 \<le> f x) \<Longrightarrow> (\<And>x. x \<in> set xs \<Longrightarrow> P x \<Longrightarrow> Q x)
    \<Longrightarrow> sum_list (map f (filter P xs)) \<le> sum_list (map f (filter Q xs))"
  by (induction xs) (auto simp add: add_increasing)

lemma sum_filter_le:
  fixes f :: "'a \<Rightarrow> int"
  shows "(\<And>x. x \<in> set xs \<Longrightarrow> 0 \<le> f x) \<Longrightarrow> sum_list (map f (filter P xs)) \<le> sum_list (map f xs)"
  by (induction xs) (auto simp add: add_increasing)

lemma in_window_entries_length:
  "length (in_window i T hist) =
     length (filter (\<lambda>e. T - 60 < fst e \<and> fst e \<le> T) (entries i hist))"
  by (induction hist) (auto simp add: in_window_def entries_def)

lemma in_window_entries_sum:
  "sum_list (map call_tokens (in_window i T hist)) =
     sum_list (map snd (filter (\<lambda>e. T - 60 < fst e \<and> fst e \<le> T) (entries i hist)))"
  by (induction hist) (auto simp add: in_window_def entries_def)

lemma in_window_append:
  "in_window i T (hs @ [c]) = in_window i T hs @
     (if call_identity c = i \<and> T - 60 < call_time c \<and> call_time c \<le> T then [c] else [])"
  by (simp add: in_window_def)

lemma entries_nonneg:
  "\<forall>c\<in>set hist. 0 \<le> call_tokens c \<Longrightarrow> e \<in> set (entries i hist) \<Longrightarrow> 0 \<le> snd e"
  by (auto simp add: entries_def)

lemma admit_count:
  assumes inv: "limiter_inv self hist t0" and le: "t0 \<le> now"
    and adm: "fst (check self now i k) = Inr ()" and pos: "0 < requests_per_minute self"
  shows "int (length (filter (\<lambda>e. now - 60 < fst e) (entries i hist))) < requests_per_minute self"
proof -
  let ?q = "purged (now - 60) (quota_of self i)"
  from inv have "reqs (quota_of self i) = map fst (tokens (quota_of self i))"
    unfolding limiter_inv_def by blast
  then have "length (reqs ?q) = length (tokens ?q)"
    by (simp add: purged_reqs)
  moreover have "length (filter (\<lambda>e. now - 60 < fst e) (entries i hist)) \<le> length (tokens ?q)"
    by (simp add: filter_recent_entries [OF inv le])
  moreover note check_admitted_requests [OF adm pos]
  ultimately show ?thesis by linarith
qed

lemma admit_sum:
  assumes inv: "limiter_inv self hist t0" and le: "t0 \<le> now"
    and adm: "fst (check self now i k) = Inr ()" and pos: "0 < tokens_per_minute self"
    and nonneg: "\<forall>c\<in>set hist. 0 \<le> call_tokens c"
  shows "sum_list (map snd (filter (\<lambda>e. now - 60 < fst e) (entries i hist))) + k
           \<le> tokens_per_minute self"
proof -
  let ?q = "purged (now - 60) (quota_of self i)"
  let ?F = "filter (\<lambda>e. now - 60 < fst e)"
  have eq: "?F (entries i hist) = ?F (tokens ?q)"
    by (rule filter_recent_entries [OF inv le])
  have "set (tokens ?q) \<subseteq> set (entries i hist)"
  proof -
    from inv obtain old where "entries i hist = old @ tokens (quota_of self i)"
      unfolding limiter_inv_def by blast
    moreover have "set (tokens ?q) \<subseteq> set (tokens (quota_of self i))"
      by (auto simp add: purged_def dest: set_dropWhileD)
    ultimately show ?thesis by auto
  qed
  then have "\<And>e. e \<in> set (tokens ?q) \<Longrightarrow> 0 \<le> snd e"
    using entries_nonneg [OF nonneg] by blast
  then have "sum_list (map snd (?F (tokens ?q))) \<le> sum_list (map snd (tokens ?q))"
    by (rule sum_filter_le)
  with eq check_admitted_tokens [OF adm pos] show ?thesis by simp
qed

lemma admitted_Cons_eq:
  "hist @ admitted self (c # cs) =
     (if isl (fst (check self (call_time c) (call_identity c) (call_tokens c)))
      then hist else hist @ [c])
     @ admitted (snd (check self (call_time c) (call_identity c) (call_tokens c))) cs"
  by (cases "check self (call_time c) (call_identity c) (call_tokens c)")
     (auto split: sum.splits)

lemma window_requests_step:
  assumes inv: "limiter_inv self hist t0" and le: "t0 \<le> call_time c"
    and pos: "0 < requests_per_minute self"
    and W: "\<And>i T. int (length (in_window i T hist)) \<le> requests_per_minute self"
    and adm: "\<not> isl (fst (check self (call_time c) (call_identity c) (call_tokens c)))"
  shows "int (length (in_window i T (hist @ [c]))) \<le> requests_per_minute self"
proof (cases "call_identity c = i \<and> T - 60 < call_time c \<and> call_time c \<le> T")
  case False
  then show ?thesis using W [of i T] by (auto simp add: in_window_append)
next
  case True
  from adm have adm': "fst (check self (call_time c) (call_identity c) (call_tokens c)) = Inr ()"
    by (cases "fst (check self (call_time c) (call_identity c) (call_tokens c))") auto
  have "length (filter (\<lambda>e. T - 60 < fst e \<and> fst e \<le> T) (entries i hist))
        \<le> length (filter (\<lambda>e. call_time c - 60 < fst e) (entries i hist))"
    using True by (intro length_filter_mono) auto
  moreover have "int (length (filter (\<lambda>e. call_time c - 60 < fst e) (entries i hist)))
        < requests_per_minute self"
    using admit_count [OF inv le adm' pos] True by simp
  ultimately show ?thesis
    using True by (simp add: in_window_append in_window_entries_length)
qed

lemma window_tokens_step:
  assumes inv: "limiter_inv self hist t0" and le: "t0 \<le> call_time c"
    and pos: "0 < tokens_per_minute self"
    and nonneg: "\<forall>c\<in>set hist. 0 \<le> call_tokens c"
    and W: "\<And>i T. sum_list (map call_tokens (in_window i T hist)) \<le> tokens_per_minute self"
    and adm: "\<not> isl (fst (check self (call_time c) (call_identity c) (call_tokens c)))"
  shows "sum_list (map call_tokens (in_window i T (hist @ [c]))) \<le> tokens_per_minute self"
proof (cases "call_identity c = i \<and> T - 60 < call_time c \<and> call_time c \<le> T")
  case False
  then show ?thesis using W [of i T] by (auto simp add: in_window_append)
next
  case True
  from adm have adm': "fst (check self (call_time c) (call_identity c) (call_tokens c)) = Inr ()"
    by (cases "fst (check self (call_time c) (call_identity c) (call_tokens c))") auto
  have "sum_list (map snd (filter (\<lambda>e. T - 60 < fst e \<and> fst e \<le> T) (entries i hist)))
        \<le> sum_list (map snd (filter (\<lambda>e. call_time c - 60 < fst e) (entries i hist)))"
    using True entries_nonneg [OF nonneg] by (intro sum_filter_mono) auto
  moreover have "sum_list (map snd (filter (\<lambda>e. call_time c - 60 < fst e) (entries i hist)))
        + call_tokens c \<le> tokens_per_minute self"
    using admit_sum [OF inv le adm' pos nonneg] True by simp
  ultimately show ?thesis
    using True by (simp add: in_window_append in_window_entries_sum)
qed

lemma window_requests_run:
  assumes "limiter_inv self hist t0" and "sorted (map call_time calls)"
    and "\<forall>c\<in>set calls. t0 \<le> call_time c" and "0 < requests_per_minute self"
    and "\<And>i T. int (length (in_window i T hist)) \<le> requests_per_minute self"
  shows "int (length (in_window i T (hist @ admitted self calls))) \<le> requests_per_minute self"
  using assms
proof (induction calls arbitrary: self hist t0)
  case Nil
  then show ?case by simp
next
  case (Cons c cs)
  let ?r = "check self (call_time c) (call_identity c) (call_tokens c)"
  let ?hist' = "if isl (fst ?r) then hist else hist @ [c]"
  from Cons.prems have le: "t0 \<le> call_time c" by simp
  have inv': "limiter_inv (snd ?r) ?hist' (call_time c)"
    by (rule inv_step [OF Cons.prems(1) le])
  have W': "\<And>i T. int (length (in_window i T ?hist')) \<le> requests_per_minute (snd ?r)"
  proof -
    fix i T
    show "int (length (in_window i T ?hist')) \<le> requests_per_minute (snd ?r)"
    proof (cases "isl (fst ?r)")
      case True
      then show ?thesis using Cons.prems(5) [of i T] by (simp add: check_ceilings)
    next
      case False
      then show ?thesis
        using window_requests_step [OF Cons.prems(1) le Cons.prems(4) Cons.prems(5) False]
        by (simp add: check_ceilings)
    qed
  qed
  have "int (length (in_window i T (?hist' @ admitted (snd ?r) cs))) \<le> requests_per_minute (snd ?r)"
  proof (rule Cons.IH [OF inv'])
    show "sorted (map call_time cs)" using Cons.prems(2) by simp
    show "\<forall>c'\<in>set cs. call_time c \<le> call_time c'" using Cons.prems(2) by simp
    show "0 < requests_per_minute (snd ?r)" using Cons.prems(4) by (simp add: check_ceilings)
    show "\<And>i T. int (length (in_window i T ?hist')) \<le> requests_per_minute (snd ?r)" by (rule W')
  qed
  then show ?case by (simp only: admitted_Cons_eq check_ceilings)
qed

lemma window_tokens_run:
  assumes "limiter_inv self hist t0" and "sorted (map call_time calls)"
    and "\<forall>c\<in>set calls. t0 \<le> call_time c" and "0 < tokens_per_minute self"
    and "\<forall>c\<in>set hist. 0 \<le> call_tokens c" and "\<forall>c\<in>set calls. 0 \<le> call_tokens c"
    and "\<And>i T. sum_list (map call_tokens (in_window i T hist)) \<le> tokens_per_minute self"
  shows "sum_list (map call_tokens (in_window i T (hist @ admitted self calls)))
           \<le> tokens_per_minute self"
  using assms
proof (induction calls arbitrary: self hist t0)
  case Nil
  then show ?case by simp
next
  case (Cons c cs)
  let ?r = "check self (call_time c) (call_identity c) (call_tokens c)"
  let ?hist' = "if isl (fst ?r) then hist else hist @ [c]"
  from Cons.prems have le: "t0 \<le> call_time c" by simp
  have inv': "limiter_inv (snd ?r) ?hist' (call_time c)"
    by (rule inv_step [OF Cons.prems(1) le])
  have nonneg': "\<forall>c\<in>set ?hist'. 0 \<le> call_tokens c"
    using Cons.prems(5,6) by simp
  have W': "\<And>i T. sum_list (map call_tokens (in_window i T ?hist')) \<le> tokens_per_minute (snd ?r)"
  proof -
    fix i T
    show "sum_list (map call_tokens (in_window i T ?hist')) \<le> tokens_per_minute (snd ?r)"
    proof (cases "isl (fst ?r)")
      case True
      then show ?thesis using Cons.prems(7) [of i T] by (simp add: check_ceilings)
    next
      case False
      then show ?thesis
        using window_tokens_step [OF Cons.prems(1) le Cons.prems(4) Cons.prems(5) Cons.prems(7) False]
        by (simp add: check_ceilings)
    qed
  qed
  have "sum_list (map call_tokens (in_window i T (?hist' @ admitted (snd ?r) cs)))
          \<le> tokens_per_minute (snd ?r)"
  proof (rule Cons.IH [OF inv'])
    show "sorted (map call_time cs)" using Cons.prems(2) by simp
    show "\<forall>c'\<in>set cs. call_time c \<le> call_time c'" using Cons.prems(2) by simp
    show "0 < tokens_per_minute (snd ?r)" using Cons.prems(4) by (simp add: check_ceilings)
    show "\<forall>c\<in>set ?hist'. 0 \<le> call_tokens c" by (rule nonneg')
    show "\<forall>c\<in>set cs. 0 \<le> call_tokens c" using Cons.prems(6) by simp
    show "\<And>i T. sum_list (map call_tokens (in_window i T ?hist')) \<le> tokens_per_minute (snd ?r)"
      by (rule W')
  qed
  then show ?case by (simp only: admitted_Cons_eq check_ceilings)
qed

lemma limiter_inv_init: "limiter_inv (RateLimiter_init settings rpm tpm) [] t0"
  by (simp add: limiter_inv_def quota_of_def RateLimiter_init_def entries_def)

lemma run_checks_ceilings:
  "requests_per_minute (run_checks self calls) = requests_per_minute self
   \<and> tokens_per_minute (run_checks self calls) = tokens_per_minute self"
  by (induction calls arbitrary: self) (simp_all add: check_ceilings)

lemmas limiter_eval =
  check_def get_quota_def RateLimiter_init_def default_settings_def py_or_def Let_def
  call_time_def call_identity_def call_tokens_def request_rate_exceeded_def
  token_rate_exceeded_def

lemma scenario_A_admitted:
  "admitted (RateLimiter_init default_settings 2 100) scenario_A
     = [(0, ''id'', 10), (1, ''id'', 20)]"
  by (simp add: scenario_A_def limiter_eval)

lemma scenario_B_admitted:
  "admitted (RateLimiter_init default_settings 5 100) scenario_B = [(0, ''id'', 60)]"
  by (simp add: scenario_B_def limiter_eval)

subsection \<open>Sliding-window ceilings\<close>

text \<open>
  Claim C1. For every identity and every sequence of \<open>check\<close> calls on a fresh limiter
  whose \<open>requests_per_minute\<close> is positive, the admitted requests of the identity with
  a timestamp in a trailing 60-second window \<open>(T - 60, T]\<close> are never more than
  \<open>requests_per_minute\<close>, for every \<open>T\<close>. The calls carry the readings of the clock,
  which do not decrease from one call to the next.
\<close>

theorem request_window_bound:
  assumes "0 < rpm" and "sorted (map call_time calls)"
  shows "int (length (in_window identity T (admitted (RateLimiter_init settings rpm tpm) calls)))
           \<le> rpm"
proof -
  let ?lim = "RateLimiter_init settings rpm tpm"
  obtain t0 where t0: "\<forall>c\<in>set calls. t0 \<le> call_time c"
  proof (cases calls)
    case Nil
    then show ?thesis using that [of 0] by simp
  next
    case (Cons c cs)
    then show ?thesis using that [of "call_time c"] assms(2) by auto
  qed
  have "int (length (in_window identity T ([] @ admitted ?lim calls))) \<le> requests_per_minute ?lim"
    using assms(1)
    by (intro window_requests_run [OF limiter_inv_init assms(2) t0])
       (simp_all add: RateLimiter_init_def in_window_def)
  then show ?thesis by (simp add: RateLimiter_init_def)
qed

theorem request_window_bound_witness:
  "(0::int) < 2 \<and> sorted (map call_time scenario_A)
   \<and> int (length (in_window ''id'' 2
          (admitted (RateLimiter_init default_settings 2 100) scenario_A))) \<le> 2"
  using request_window_bound [of 2 scenario_A "''id''" 2 default_settings 100]
  by (simp add: scenario_A_def call_time_def)

text \<open>
  Claim C2. For every identity and every sequence of \<open>check\<close> calls on a fresh limiter
  whose token ceiling is positive, the token counts of the identity's admitted requests
  with a timestamp in a trailing 60-second window \<open>(T - 60, T]\<close> sum to at most the
  ceiling, for every \<open>T\<close>. Token counts are not negative and the readings of the clock
  do not decrease.
\<close>

theorem token_window_bound:
  assumes "0 < tokens_per_minute (RateLimiter_init settings rpm tpm)"
    and "sorted (map call_time calls)" and "\<forall>c\<in>set calls. 0 \<le> call_tokens c"
  shows "sum_list (map call_tokens
           (in_window identity T (admitted (RateLimiter_init settings rpm tpm) calls)))
           \<le> tokens_per_minute (RateLimiter_init settings rpm tpm)"
proof -
  let ?lim = "RateLimiter_init settings rpm tpm"
  obtain t0 where t0: "\<forall>c\<in>set calls. t0 \<le> call_time c"
  proof (cases calls)
    case Nil
    then show ?thesis using that [of 0] by simp
  next
    case (Cons c cs)
    then show ?thesis using that [of "call_time c"] assms(2) by auto
  qed
  have "sum_list (map call_tokens (in_window identity T ([] @ admitted ?lim calls)))
          \<le> tokens_per_minute ?lim"
    by (rule window_tokens_run [OF limiter_inv_init assms(2) t0 assms(1) _ assms(3)])
       (simp_all add: in_window_def assms(1) less_imp_le)
  then show ?thesis by simp
qed

theorem token_window_bound_witness:
  "0 < tokens_per_minute (RateLimiter_init default_settings 5 100)
   \<and> sorted (map call_time scenario_B) \<and> list_all (\<lambda>c. 0 \<le> call_tokens c) scenario_B
   \<and> sum_list (map call_tokens (in_window ''id'' 1
          (admitted (RateLimiter_init default_settings 5 100) scenario_B))) \<le> 100"
  using token_window_bound [of default_settings 5 100 scenario_B "''id''" 1]
  by (simp add: scenario_B_def call_time_def call_tokens_def RateLimiter_init_def py_or_def)

text \<open>
  Both bounds rest on the clock: with the readings of \<open>backward_clock_calls\<close> all five
  calls are admitted under a ceiling of two requests, and three of them carry a
  timestamp in the window that ends at 102.
\<close>

lemma backward_clock_admits_three:
  "admitted (RateLimiter_init default_settings 2 100) backward_clock_calls = backward_clock_calls
   \<and> length (in_window ''id'' 102
        (admitted (RateLimiter_init default_settings 2 100) backward_clock_calls)) = 3"
  by (simp add: backward_clock_calls_def in_window_def limiter_eval)

subsection \<open>Rejection\<close>

text \<open>
  Claim C3, as the code has it. A rejected \<open>check\<close> appends nothing, but it is not
  without effect: the limiter after the call is the limiter before it with the
  rejected identity's quota replaced by its purged form, that is the previous quota
  (an empty one if the identity was unseen) without the leading entries whose
  timestamp is at most \<open>now - 60\<close>. The ceilings and every other identity's quota are
  as before.
\<close>

theorem rejected_check_purges_only:
  assumes "isl (fst (check self now identity toks))"
  shows "snd (check self now identity toks)
           = self\<lparr>store := (store self)(identity \<mapsto> purged (now - 60) (quota_of self identity))\<rparr>"
  using assms by (auto simp add: check_eq Let_def split: if_splits)

theorem rejected_check_purges_only_witness:
  "isl (fst (check limiter_after_first 61 ''id'' 200))
   \<and> snd (check limiter_after_first 61 ''id'' 200)
       = limiter_after_first\<lparr>store := (store limiter_after_first)(''id'' \<mapsto>
           purged (61 - 60) (quota_of limiter_after_first ''id''))\<rparr>"
proof -
  have r: "isl (fst (check limiter_after_first 61 ''id'' 200))"
    by (simp add: limiter_after_first_def limiter_eval)
  from r rejected_check_purges_only [OF r] show ?thesis by simp
qed

text \<open>
  The claim as stated fails: the call at time 61 asking for 200 tokens is rejected, and
  the identity's sequences, which held the entry of time 0 before the call, are empty
  after it.
\<close>

theorem rejected_check_mutates_counterexample:
  "fst (check limiter_after_first 61 ''id'' 200) = Inl token_rate_exceeded
   \<and> store limiter_after_first ''id'' = Some \<lparr>reqs = [0], tokens = [(0, 60)]\<rparr>
   \<and> store (snd (check limiter_after_first 61 ''id'' 200)) ''id''
       = Some \<lparr>reqs = [], tokens = []\<rparr>"
  by (simp add: limiter_after_first_def limiter_eval)

subsection \<open>Disabled ceilings\<close>

text \<open>
  Claim C4, as the code has it. After any calls on a limiter built from the arguments
  \<open>rpm\<close> and \<open>tpm\<close>: if \<open>rpm \<le> 0\<close> no call is rejected for its request rate; and no call
  is rejected for its token rate if the ceiling that the constructor stores, which is
  \<open>tpm\<close>, or \<open>settings.tokens_per_minute\<close> when \<open>tpm\<close> is zero, or
  \<open>settings.rate_limit_tpm\<close> when that is zero too, is at most zero.
\<close>

theorem disabled_ceilings:
  fixes settings rpm tpm calls
  defines "self \<equiv> run_checks (RateLimiter_init settings rpm tpm) calls"
  shows "(rpm \<le> 0 \<longrightarrow> fst (check self now identity toks) \<noteq> Inl request_rate_exceeded)
       \<and> (py_or tpm (py_or (settings_tokens_per_minute settings)
                           (settings_rate_limit_tpm settings)) \<le> 0
            \<longrightarrow> fst (check self now identity toks) \<noteq> Inl token_rate_exceeded)"
proof -
  have "requests_per_minute self = rpm"
    and "tokens_per_minute self
           = py_or tpm (py_or (settings_tokens_per_minute settings)
                              (settings_rate_limit_tpm settings))"
    by (simp_all add: self_def run_checks_ceilings RateLimiter_init_def)
  then show ?thesis
    by (auto simp add: check_eq Let_def request_rate_exceeded_def token_rate_exceeded_def)
qed

theorem disabled_ceilings_witness:
  "(0::int) \<le> 0
   \<and> py_or (- 1) (py_or (settings_tokens_per_minute default_settings)
                        (settings_rate_limit_tpm default_settings)) \<le> 0
   \<and> fst (check (run_checks (RateLimiter_init default_settings 0 (- 1)) scenario_A)
            3 ''id'' 1000000) \<noteq> Inl request_rate_exceeded
   \<and> fst (check (run_checks (RateLimiter_init default_settings 0 (- 1)) scenario_A)
            3 ''id'' 1000000) \<noteq> Inl token_rate_exceeded"
  using disabled_ceilings [of 0 default_settings "- 1" scenario_A 3 "''id''" 1000000]
  by (simp add: py_or_def)

text \<open>
  The claim as stated fails for a token ceiling of zero: the constructor replaces it by
  the setting (20000 by default), and a call asking for 20001 tokens is rejected.
\<close>

theorem zero_token_ceiling_counterexample:
  "fst (check (RateLimiter_init default_settings 5 0) 0 ''id'' 20001) = Inl token_rate_exceeded"
  by (simp add: limiter_eval)

section \<open>Properties of the context reducer\<close>

subsection \<open>The fallback\<close>

lemma fallback_keep_short:
  "int (length ctx) \<le> top_k \<Longrightarrow> fallback_keep top_k ctx = ctx"
  by (simp add: fallback_keep_def Let_def)

lemma half_pos: "0 < max (top_k div 2) (1::int)"
  by simp

lemma slice_to_half:
  "0 < h \<Longrightarrow> slice_to xs h = take (nat h) xs"
  by (simp add: slice_to_def slice_bound_def min_def)

lemma slice_from_neg_half:
  "0 < h \<Longrightarrow> slice_from xs (- h) = drop (length xs - nat h) xs"
proof -
  assume h: "0 < h"
  have "nat (max 0 (int (length xs) - h)) = length xs - nat h"
    using h by (simp add: max_def nat_diff_distrib)
  with h show ?thesis by (simp add: slice_from_def slice_bound_def)
qed

lemma fallback_keep_long:
  "\<not> int (length ctx) \<le> top_k \<Longrightarrow>
     fallback_keep top_k ctx =
       take (nat (max (top_k div 2) 1)) ctx @ drop (length ctx - nat (max (top_k div 2) 1)) ctx"
  by (simp add: fallback_keep_def Let_def slice_to_half [OF half_pos]
      slice_from_neg_half [OF half_pos])

lemma half_ge_1: "1 \<le> nat (max (top_k div 2) 1)"
  by simp

lemma half_small: "top_k \<le> 1 \<Longrightarrow> nat (max (top_k div 2) 1) = 1"
proof -
  assume "top_k \<le> 1"
  then have "top_k div 2 \<le> 0" by linarith
  then show ?thesis by (simp add: max_def)
qed

lemma half_double:
  assumes "2 \<le> top_k"
  shows "int (2 * nat (max (top_k div 2) 1)) \<le> top_k"
proof -
  from assms have "1 \<le> top_k div 2" by linarith
  then have "max (top_k div 2) 1 = top_k div 2" by simp
  moreover have "2 * (top_k div 2) \<le> top_k" by linarith
  ultimately show ?thesis using \<open>1 \<le> top_k div 2\<close> by simp
qed

lemma fallback_keep_length:
  "length (fallback_keep top_k ctx) =
     (if int (length ctx) \<le> top_k then length ctx
      else 2 * min (nat (max (top_k div 2) 1)) (length ctx))"
proof (cases "int (length ctx) \<le> top_k")
  case True
  then show ?thesis by (simp add: fallback_keep_short)
next
  case False
  have "length ctx - (length ctx - nat (max (top_k div 2) 1))
          = min (nat (max (top_k div 2) 1)) (length ctx)"
    by linarith
  with False show ?thesis by (simp add: fallback_keep_long min.commute)
qed

lemma take_as_nth: "take m xs = map (\<lambda>i. xs ! i) [0..<min m (length xs)]"
proof -
  have "take m xs = take m (map (\<lambda>i. xs ! i) [0..<length xs])"
    by (simp add: map_nth)
  also have "\<dots> = map (\<lambda>i. xs ! i) (take m [0..<length xs])"
    by (simp add: take_map)
  also have "take m [0..<length xs] = [0..<min m (length xs)]"
    by (cases "m \<le> length xs") (simp_all add: min_def)
  finally show ?thesis .
qed

lemma drop_as_nth: "drop m xs = map (\<lambda>i. xs ! i) [m..<length xs]"
proof -
  have "drop m xs = drop m (map (\<lambda>i. xs ! i) [0..<length xs])"
    by (simp add: map_nth)
  also have "\<dots> = map (\<lambda>i. xs ! i) (drop m [0..<length xs])"
    by (simp add: drop_map)
  finally show ?thesis by simp
qed



lemma fallback_keep_positions:
  "fallback_keep top_k ctx = map (\<lambda>i. ctx ! i) (fallback_positions top_k (length ctx))"
proof (cases "int (length ctx) \<le> top_k")
  case True
  then show ?thesis by (simp add: fallback_keep_short fallback_positions_def map_nth)
next
  case False
  then show ?thesis
    by (simp add: fallback_keep_long fallback_positions_def take_as_nth [symmetric]
        drop_as_nth [symmetric])
qed

lemma fallback_positions_bound: "i \<in> set (fallback_positions top_k c) \<Longrightarrow> i < c"
  by (cases "int c \<le> top_k") (auto simp add: fallback_positions_def)

lemma halves_apart:
  assumes "\<not> int c \<le> top_k"
  defines "h \<equiv> nat (max (top_k div 2) 1)"
  shows "min h c \<le> Suc (c - h)" and "0 < top_k \<Longrightarrow> min h c \<le> c - h"
proof -
  have h1: "1 \<le> h" by (simp add: h_def)
  have big: "2 \<le> top_k \<Longrightarrow> 2 * h \<le> c"
  proof -
    assume "2 \<le> top_k"
    from half_double [OF this] have "int (2 * h) \<le> top_k" by (simp add: h_def)
    with assms(1) show "2 * h \<le> c" by linarith
  qed
  have small: "top_k \<le> 1 \<Longrightarrow> h = 1"
    by (simp add: h_def half_small)
  show "min h c \<le> Suc (c - h)"
  proof (cases "2 \<le> top_k")
    case True
    from big [OF True] show ?thesis by simp
  next
    case False
    then have "h = 1" by (simp add: small)
    then show ?thesis by simp
  qed
  show "min h c \<le> c - h" if "0 < top_k"
  proof (cases "2 \<le> top_k")
    case True
    from big [OF True] show ?thesis by simp
  next
    case False
    then have "h = 1" by (simp add: small)
    moreover from False that assms(1) have "2 \<le> c" by linarith
    ultimately show ?thesis by simp
  qed
qed

lemma fallback_positions_sorted: "sorted (fallback_positions top_k c)"
proof (cases "int c \<le> top_k")
  case True
  then show ?thesis by (simp add: fallback_positions_def)
next
  case False
  define a where "a = min (nat (max (top_k div 2) 1)) c"
  define b where "b = c - nat (max (top_k div 2) 1)"
  have ab: "a \<le> Suc b" unfolding a_def b_def by (rule halves_apart(1) [OF False])
  have "\<forall>x\<in>set [0..<a]. \<forall>y\<in>set [b..<c]. x \<le> y"
  proof (intro ballI)
    fix x y assume "x \<in> set [0..<a]" "y \<in> set [b..<c]"
    then have "x < a" "b \<le> y" by simp_all
    with ab show "x \<le> y" by simp
  qed
  then have "sorted ([0..<a] @ [b..<c])" by (simp add: sorted_append)
  with False show ?thesis
    by (simp add: fallback_positions_def a_def b_def)
qed

lemma fallback_positions_distinct:
  assumes "0 < top_k"
  shows "distinct (fallback_positions top_k c)"
proof (cases "int c \<le> top_k")
  case True
  then show ?thesis by (simp add: fallback_positions_def)
next
  case False
  define a where "a = min (nat (max (top_k div 2) 1)) c"
  define b where "b = c - nat (max (top_k div 2) 1)"
  have ab: "a \<le> b" unfolding a_def b_def by (rule halves_apart(2) [OF False assms])
  have "set [0..<a] \<inter> set [b..<c] = {}"
  proof (rule ccontr)
    assume "set [0..<a] \<inter> set [b..<c] \<noteq> {}"
    then obtain x where "x \<in> set [0..<a]" "x \<in> set [b..<c]" by blast
    then have "x < a" "b \<le> x" by simp_all
    with ab show False by simp
  qed
  then have "distinct ([0..<a] @ [b..<c])" by simp
  with False show ?thesis
    by (simp add: fallback_positions_def a_def b_def)
qed

subsection \<open>Selection of the highest scores\<close>

lemma mask_prefix_length: "length (mask_prefix p rel) = length rel"
  by (simp add: mask_prefix_def)

lemma mask_prefix_nth:
  "i < length rel \<Longrightarrow> mask_prefix p rel ! i = (if i < p then None else Some (rel ! i))"
  by (simp add: mask_prefix_def nth_append)

lemma topk_length: "length (topk scores k) = min k (length scores)"
  by (simp add: topk_def min.commute)

lemma topk_set: "set (topk scores k) \<subseteq> {0..<length scores}"
proof -
  have "set (topk scores k) \<subseteq> set (rev (sort_key (\<lambda>i. scores ! i) (rev [0..<length scores])))"
    unfolding topk_def by (rule set_take_subset)
  then show ?thesis by simp
qed

lemma topk_distinct: "distinct (topk scores k)"
  by (simp add: topk_def distinct_take)

lemma sorted_option_split:
  fixes f :: "'a \<Rightarrow> 'b::linorder option"
  shows "sorted (map f xs) \<Longrightarrow>
           xs = filter (\<lambda>x. f x = None) xs @ filter (\<lambda>x. f x \<noteq> None) xs"
proof (induction xs)
  case Nil
  then show ?case by simp
next
  case (Cons x xs)
  then have IH: "xs = filter (\<lambda>x. f x = None) xs @ filter (\<lambda>x. f x \<noteq> None) xs"
    and le: "\<forall>y\<in>set xs. f x \<le> f y"
    by simp_all
  show ?case
  proof (cases "f x")
    case None
    with IH show ?thesis by simp
  next
    case (Some v)
    with le have "\<forall>y\<in>set xs. f y \<noteq> None"
      by (metis less_eq_option_Some_None)
    then have "filter (\<lambda>x. f x = None) xs = []" "filter (\<lambda>x. f x \<noteq> None) xs = xs"
      by (simp_all add: filter_empty_conv filter_id_conv)
    with Some show ?thesis by simp
  qed
qed

lemma length_filter_upt_ge: "length (filter (\<lambda>i. p \<le> i) [0..<n]) = n - p"
  by (induction n) (auto simp add: Suc_diff_le)

lemma topk_unmasked:
  assumes k: "k \<le> length rel - p"
  shows "\<forall>i\<in>set (topk (mask_prefix p rel) k). p \<le> i"
proof -
  let ?n = "length rel"
  let ?f = "\<lambda>i. mask_prefix p rel ! i"
  let ?L = "sort_key ?f (rev [0..<?n])"
  have setL: "set ?L = {0..<?n}" by simp
  have key: "\<And>i. i \<in> set ?L \<Longrightarrow> (?f i \<noteq> None) = (p \<le> i)"
    by (auto simp add: mask_prefix_nth)
  have "sorted (map ?f ?L)" by (rule sorted_sort_key)
  then have split: "?L = filter (\<lambda>x. ?f x = None) ?L @ filter (\<lambda>x. ?f x \<noteq> None) ?L"
    by (rule sorted_option_split)
  let ?S = "filter (\<lambda>x. ?f x \<noteq> None) ?L"
  have "length ?S = length (filter (\<lambda>x. ?f x \<noteq> None) (rev [0..<?n]))"
    by (simp only: filter_sort length_sort)
  also have "\<dots> = length (filter (\<lambda>x. ?f x \<noteq> None) [0..<?n])"
    by (simp only: rev_filter [symmetric] length_rev)
  also have "filter (\<lambda>x. ?f x \<noteq> None) [0..<?n] = filter (\<lambda>i. p \<le> i) [0..<?n]"
    by (rule filter_cong) (auto simp add: mask_prefix_nth)
  finally have lenS: "length ?S = ?n - p"
    by (simp add: length_filter_upt_ge)
  have "rev ?L = rev ?S @ rev (filter (\<lambda>x. ?f x = None) ?L)"
    by (subst split) simp
  then have "take k (rev ?L) = take k (rev ?S)"
    using k lenS by simp
  then have "set (topk (mask_prefix p rel) k) \<subseteq> set ?S"
    unfolding topk_def mask_prefix_length
    by (metis set_rev set_take_subset)
  with key show ?thesis by auto
qed

lemma topk_takes_masked:
  assumes "length rel - p < k" and "k \<le> length rel"
  shows "\<exists>i\<in>set (topk (mask_prefix p rel) k). i < p"
proof (rule ccontr)
  assume "\<not> ?thesis"
  then have ge: "\<And>i. i \<in> set (topk (mask_prefix p rel) k) \<Longrightarrow> p \<le> i"
    by (meson not_le_imp_less)
  have lt: "\<And>i. i \<in> set (topk (mask_prefix p rel) k) \<Longrightarrow> i < length rel"
    using topk_set [of "mask_prefix p rel" k] by (auto simp add: mask_prefix_length)
  have "set (topk (mask_prefix p rel) k) \<subseteq> {p..<length rel}"
  proof
    fix i assume "i \<in> set (topk (mask_prefix p rel) k)"
    with ge lt show "i \<in> {p..<length rel}" by simp
  qed
  then have "card (set (topk (mask_prefix p rel) k)) \<le> card {p..<length rel}"
    by (intro card_mono) simp_all
  moreover have "card (set (topk (mask_prefix p rel) k)) = k"
    using assms(2) by (simp add: distinct_card [OF topk_distinct] topk_length mask_prefix_length)
  ultimately show False using assms(1) by simp
qed

lemma iadd_length: "iadd relevance attn_scores = Inr r \<Longrightarrow> length r = length relevance"
  by (auto simp add: iadd_def split: if_splits)

lemma accumulate_relevance_length:
  "accumulate_relevance att hs relevance = Inr r \<Longrightarrow> length r = length relevance"
proof (induction att hs relevance rule: accumulate_relevance.induct)
  case (1 att relevance)
  then show ?case by simp
next
  case (2 att layer_idx head_idx hs relevance)
  then show ?case
    by (auto split: sum.splits dest: iadd_length)
qed

lemma oracle_positions_Inr:
  assumes "oracle_positions loaded query input_ids top_k = Inr ps"
  shows "\<exists>rel p. length rel = length input_ids \<and> start_index loaded query = Inr p
           \<and> 0 \<le> min top_k (int (length input_ids))
           \<and> ps = sort (topk (mask_prefix p rel) (nat (min top_k (int (length input_ids)))))"
proof -
  from assms obtain summed where
    acc: "accumulate_relevance (attentions loaded input_ids) (retrieval_heads loaded)
            (replicate (length input_ids) 0) = Inr summed"
    by (auto simp add: oracle_positions_def Let_def split: sum.splits)
  let ?rel = "map (\<lambda>x. x / real (max (length (retrieval_heads loaded)) 1)) summed"
  from accumulate_relevance_length [OF acc] have len: "length ?rel = length input_ids" by simp
  from assms acc obtain p where p: "start_index loaded query = Inr p"
    by (auto simp add: oracle_positions_def Let_def split: sum.splits)
  from assms acc p have "0 \<le> min top_k (int (length input_ids))"
    and "ps = sort (topk (mask_prefix p ?rel) (nat (min top_k (int (length input_ids)))))"
    by (auto simp add: oracle_positions_def Let_def split: if_splits)
  with len p show ?thesis by blast
qed

subsection \<open>The results of \<open>reduce\<close>\<close>

lemma squeeze_tolist_cases:
  "squeeze_tolist xs = (if length xs = 1 then PyScalar (hd xs) else PyList xs)"
  by (cases xs) (auto simp add: squeeze_tolist_def split: list.splits)

lemma slice_from_nat: "slice_from xs (int s) = drop s xs"
  by (simp add: slice_from_def slice_bound_def min_def)

lemma fallback_select_Inr:
  assumes "fallback_select loaded query input_ids top_k = Inr selected"
  shows "\<exists>s. start_index loaded query = Inr s \<and> length input_ids \<noteq> 1
           \<and> selected = fallback_keep top_k (drop s input_ids)"
  using assms
  by (auto simp add: fallback_select_def py_slice_from_def squeeze_tolist_cases slice_from_nat
      split: sum.splits if_splits)

lemma oracle_select_Inr:
  assumes "oracle_select loaded query input_ids top_k = Inr selected"
  shows "\<exists>ps. oracle_positions loaded query input_ids top_k = Inr ps \<and> length input_ids \<noteq> 1
           \<and> selected = map (\<lambda>i. input_ids ! i) ps"
  using assms
  by (auto simp add: oracle_select_def squeeze_tolist_cases split: sum.splits if_splits)

lemma select_ids_cases:
  "select_ids settings loaded query context top_k_opt =
     (if retrieval_heads loaded = []
      then fallback_select loaded query (input_ids_of loaded query context)
             (effective_top_k settings top_k_opt)
      else oracle_select loaded query (input_ids_of loaded query context)
             (effective_top_k settings top_k_opt))"
  by (simp add: select_ids_def Let_def)

lemma reduce_Inr:
  "reduce settings loaded query context top_k_opt = Inr (condensed, tokens_before, tokens_after)
   \<longleftrightarrow> (\<exists>selected. select_ids settings loaded query context top_k_opt = Inr selected
          \<and> condensed = tokenizer_decode loaded selected
          \<and> tokens_before = int (length (input_ids_of loaded query context))
          \<and> tokens_after = int (length selected))"
  by (auto simp add: reduce_def Let_def split: sum.splits)

lemma oracle_positions_length:
  assumes "oracle_positions loaded query input_ids top_k = Inr ps"
  shows "int (length ps) = min top_k (int (length input_ids))"
proof -
  define k where "k = min top_k (int (length input_ids))"
  from oracle_positions_Inr [OF assms] obtain rel p where
    len: "length rel = length input_ids" and k0: "0 \<le> k"
    and ps: "ps = sort (topk (mask_prefix p rel) (nat k))"
    unfolding k_def by blast
  have "k \<le> int (length input_ids)" by (simp add: k_def)
  with k0 have "nat k \<le> length input_ids" by linarith
  then have "length ps = nat k"
    by (simp add: ps topk_length mask_prefix_length len)
  with k0 show ?thesis by (simp add: k_def)
qed

lemma oracle_positions_order:
  assumes "oracle_positions loaded query input_ids top_k = Inr ps"
  shows "sorted ps \<and> distinct ps \<and> (\<forall>i\<in>set ps. i < length input_ids)"
proof -
  from oracle_positions_Inr [OF assms] obtain rel p where
    len: "length rel = length input_ids"
    and ps: "ps = sort (topk (mask_prefix p rel) (nat (min top_k (int (length input_ids)))))"
    by blast
  have "set ps \<subseteq> {0..<length input_ids}"
    using topk_set [of "mask_prefix p rel"] by (simp add: ps mask_prefix_length len)
  then show ?thesis by (auto simp add: ps topk_distinct)
qed

lemma fallback_keep_bound:
  assumes "length input_ids \<noteq> 1"
  shows "length (fallback_keep top_k (drop s input_ids)) \<le> length input_ids"
proof (cases "int (length (drop s input_ids)) \<le> top_k")
  case True
  then show ?thesis by (simp add: fallback_keep_short)
next
  case False
  define c where "c = length (drop s input_ids)"
  define h where "h = nat (max (top_k div 2) 1)"
  have cn: "c \<le> length input_ids" by (simp add: c_def)
  have len: "length (fallback_keep top_k (drop s input_ids)) = 2 * min h c"
    using False by (simp add: fallback_keep_length c_def h_def)
  from False have F: "\<not> int c \<le> top_k" by (simp add: c_def)
  show ?thesis
  proof (cases "2 \<le> top_k")
    case True
    from half_double [OF True] F have "2 * h \<le> c" unfolding h_def by linarith
    with cn len show ?thesis by simp
  next
    case False
    then have h1: "h = 1" by (simp add: h_def half_small)
    show ?thesis
    proof (cases "c = 0")
      case True
      with len show ?thesis by simp
    next
      case False
      with cn assms have "2 \<le> length input_ids" by linarith
      moreover from h1 have "2 * min h c \<le> 2" by simp
      ultimately show ?thesis using len by linarith
    qed
  qed
qed

lemma select_ids_length_le:
  assumes "select_ids settings loaded query context top_k_opt = Inr selected"
  shows "length selected \<le> length (input_ids_of loaded query context)"
proof (cases "retrieval_heads loaded = []")
  case True
  with assms fallback_select_Inr obtain s where
    "length (input_ids_of loaded query context) \<noteq> 1"
    "selected = fallback_keep (effective_top_k settings top_k_opt)
                  (drop s (input_ids_of loaded query context))"
    by (simp add: select_ids_cases) blast
  then show ?thesis by (simp add: fallback_keep_bound)
next
  case False
  with assms oracle_select_Inr obtain ps where
    ps: "oracle_positions loaded query (input_ids_of loaded query context)
           (effective_top_k settings top_k_opt) = Inr ps"
    and sel: "selected = map (\<lambda>i. input_ids_of loaded query context ! i) ps"
    by (simp add: select_ids_cases) blast
  from oracle_positions_length [OF ps] sel show ?thesis by simp
qed

lemma select_ids_length_top_k:
  assumes sel: "select_ids settings loaded query context top_k_opt = Inr selected"
    and pos: "0 < effective_top_k settings top_k_opt"
  shows "int (length selected)
           \<le> (if retrieval_heads loaded = [] \<and> effective_top_k settings top_k_opt = 1 then 2
               else effective_top_k settings top_k_opt)"
proof (cases "retrieval_heads loaded = []")
  case True
  define top_k where "top_k = effective_top_k settings top_k_opt"
  from True sel fallback_select_Inr obtain s where
    s: "selected = fallback_keep top_k (drop s (input_ids_of loaded query context))"
    unfolding top_k_def by (simp add: select_ids_cases) blast
  define ctx where "ctx = drop s (input_ids_of loaded query context)"
  have "int (length (fallback_keep top_k ctx)) \<le> (if top_k = 1 then 2 else top_k)"
  proof (cases "int (length ctx) \<le> top_k")
    case True
    then show ?thesis by (simp add: fallback_keep_short)
  next
    case False
    have len: "length (fallback_keep top_k ctx) \<le> 2 * nat (max (top_k div 2) 1)"
      using False by (simp add: fallback_keep_length)
    show ?thesis
    proof (cases "2 \<le> top_k")
      case True
      from half_double [OF True] len
      have "int (length (fallback_keep top_k ctx)) \<le> top_k" by linarith
      with True show ?thesis by simp
    next
      case False
      with pos have t1: "top_k = 1" by (simp add: top_k_def)
      then have "nat (max (top_k div 2) 1) = 1" by (simp add: half_small)
      with len have "length (fallback_keep top_k ctx) \<le> 2" by simp
      with t1 show ?thesis by simp
    qed
  qed
  then have "int (length selected)
      \<le> (if effective_top_k settings top_k_opt = 1 then 2
          else effective_top_k settings top_k_opt)"
    unfolding s ctx_def top_k_def .
  with True show ?thesis by simp
next
  case False
  with sel oracle_select_Inr obtain ps where
    ps: "oracle_positions loaded query (input_ids_of loaded query context)
           (effective_top_k settings top_k_opt) = Inr ps"
    and s: "selected = map (\<lambda>i. input_ids_of loaded query context ! i) ps"
    by (simp add: select_ids_cases) blast
  from oracle_positions_length [OF ps] s False show ?thesis by simp
qed

lemma start_index_value:
  "start_index loaded query = Inr s \<Longrightarrow>
     s = length (tokenizer loaded query) + length (tokenizer loaded sep)"
  by (auto simp add: start_index_def py_len_def squeeze_tolist_cases
      split: sum.splits if_splits)

lemma select_ids_fallback_context:
  assumes heads: "retrieval_heads loaded = []"
    and comp: "tokenizer loaded (query @ sep @ context)
                 = tokenizer loaded query @ tokenizer loaded sep @ tokenizer loaded context"
    and sel: "select_ids settings loaded query context top_k_opt = Inr selected"
  shows "selected = fallback_keep (effective_top_k settings top_k_opt) (tokenizer loaded context)"
proof -
  from heads sel fallback_select_Inr obtain s where
    s: "start_index loaded query = Inr s"
    and eq: "selected = fallback_keep (effective_top_k settings top_k_opt)
               (drop s (input_ids_of loaded query context))"
    by (simp add: select_ids_cases) blast
  from start_index_value [OF s]
  have "drop s (input_ids_of loaded query context) = tokenizer loaded context"
    by (simp add: input_ids_of_def comp)
  with eq show ?thesis by simp
qed

lemmas reducer_eval =
  reduce_def select_ids_def effective_top_k_def input_ids_of_def fallback_select_def
  oracle_select_def oracle_positions_def start_index_def sep_def squeeze_tolist_def py_len_def
  py_slice_from_def slice_from_def slice_to_def slice_bound_def fallback_keep_def py_index_def
  iadd_def mask_prefix_def topk_def Let_def byte_fallback_def byte_oracle_def
  byte_tokenizer_def byte_decode_def first_token_attention_def char_of_def

lemma fallback_select_positions:
  assumes "fallback_select loaded query input_ids top_k = Inr selected"
  shows "\<exists>ps. sorted ps \<and> (0 < top_k \<longrightarrow> distinct ps)
           \<and> (\<forall>i\<in>set ps. i < length input_ids) \<and> selected = map (\<lambda>i. input_ids ! i) ps"
proof -
  from fallback_select_Inr [OF assms] obtain s where
    sel: "selected = fallback_keep top_k (drop s input_ids)" by blast
  define c where "c = length (drop s input_ids)"
  define qs where "qs = fallback_positions top_k c"
  define ps where "ps = map (\<lambda>i. s + i) qs"
  have bound: "\<And>i. i \<in> set qs \<Longrightarrow> s + i < length input_ids"
  proof -
    fix i assume "i \<in> set qs"
    then have "i < c" unfolding qs_def by (rule fallback_positions_bound)
    then show "s + i < length input_ids" by (simp add: c_def less_diff_conv add.commute)
  qed
  have "selected = map (\<lambda>i. drop s input_ids ! i) qs"
    by (simp add: sel fallback_keep_positions qs_def c_def)
  also have "\<dots> = map (\<lambda>i. input_ids ! (s + i)) qs"
  proof (rule map_cong [OF refl])
    fix i assume "i \<in> set qs"
    from bound [OF this] have "s \<le> length input_ids" by simp
    then show "drop s input_ids ! i = input_ids ! (s + i)" by simp
  qed
  finally have 1: "selected = map (\<lambda>i. input_ids ! i) ps"
    by (simp add: ps_def comp_def)
  have 2: "sorted ps"
    using fallback_positions_sorted [of top_k c]
    by (simp add: ps_def qs_def sorted_map sorted_wrt_iff_nth_less)
  have 3: "0 < top_k \<longrightarrow> distinct ps"
    using fallback_positions_distinct [of top_k c]
    by (simp add: ps_def qs_def distinct_map inj_on_def)
  have 4: "\<forall>i\<in>set ps. i < length input_ids"
    using bound by (auto simp add: ps_def)
  from 1 2 3 4 show ?thesis by blast
qed

lemma select_ids_positions:
  assumes "select_ids settings loaded query context top_k_opt = Inr selected"
  shows "\<exists>positions. sorted positions
           \<and> (0 < effective_top_k settings top_k_opt \<longrightarrow> distinct positions)
           \<and> (\<forall>i\<in>set positions. i < length (input_ids_of loaded query context))
           \<and> selected = map (\<lambda>i. input_ids_of loaded query context ! i) positions"
proof (cases "retrieval_heads loaded = []")
  case True
  with assms have "fallback_select loaded query (input_ids_of loaded query context)
      (effective_top_k settings top_k_opt) = Inr selected"
    by (simp add: select_ids_cases)
  from fallback_select_positions [OF this] show ?thesis .
next
  case False
  with assms oracle_select_Inr obtain ps where
    ps: "oracle_positions loaded query (input_ids_of loaded query context)
           (effective_top_k settings top_k_opt) = Inr ps"
    and sel: "selected = map (\<lambda>i. input_ids_of loaded query context ! i) ps"
    by (simp add: select_ids_cases) blast
  from oracle_positions_order [OF ps] sel show ?thesis by blast
qed

text \<open>The scenarios C and D of the specification.\<close>

lemma scenario_C: "fallback_keep 4 [0, 1, 2, 3, 4, 5, 6, 7, 8, 9] = [0, 1, 8, 9]"
  by (simp add: reducer_eval)

lemma scenario_D:
  "topk [Some 0.1, Some 0.9, Some 0.2, Some 0.5] 3 = [1, 3, 2]
   \<and> sort (topk [Some 0.1, Some 0.9, Some 0.2, Some 0.5] 3) = [1, 2, 3]"
  by (simp add: topk_def)

subsection \<open>Size of the condensed result\<close>

text \<open>
  Claim C5, as the code has it. For every \<open>reduce\<close> call that returns, with a positive
  \<open>top_k\<close>: \<open>tokens_after \<le> top_k\<close>, except on the fallback path with \<open>top_k = 1\<close>, where
  \<open>tokens_after \<le> 2\<close> (the fallback keeps at least one token from each end).
\<close>

theorem tokens_after_bound:
  assumes "reduce settings loaded query context top_k_opt
             = Inr (condensed, tokens_before, tokens_after)"
    and "0 < effective_top_k settings top_k_opt"
  shows "tokens_after
           \<le> (if retrieval_heads loaded = [] \<and> effective_top_k settings top_k_opt = 1 then 2
               else effective_top_k settings top_k_opt)"
proof -
  from assms(1) obtain selected where
    "select_ids settings loaded query context top_k_opt = Inr selected"
    "tokens_after = int (length selected)"
    by (auto simp add: reduce_Inr)
  with select_ids_length_top_k [OF _ assms(2)] show ?thesis by simp
qed

theorem tokens_after_bound_witness:
  "reduce default_settings byte_fallback ''ab'' ''wxyz'' (Some 3) = Inr (''wz'', 25, 2)
   \<and> 0 < effective_top_k default_settings (Some 3) \<and> (2::int) \<le> 3"
proof -
  have r: "reduce default_settings byte_fallback ''ab'' ''wxyz'' (Some 3) = Inr (''wz'', 25, 2)"
    by (simp add: reducer_eval)
  have p: "0 < effective_top_k default_settings (Some 3)"
    by (simp add: effective_top_k_def)
  from tokens_after_bound [OF r p] r p show ?thesis
    by (simp add: effective_top_k_def)
qed

text \<open>
  The claim as stated fails at \<open>top_k = 1\<close>: from a context of four tokens the fallback
  keeps the first and the last, two tokens.
\<close>

theorem top_k_one_keeps_two_counterexample:
  "reduce default_settings byte_fallback ''ab'' ''wxyz'' (Some 1) = Inr (''wz'', 25, 2)
   \<and> \<not> (2::int) \<le> 1"
  by (simp add: reducer_eval)

subsection \<open>What the fallback keeps\<close>

text \<open>
  Claim C6, as the code has it. On the fallback path, when \<open>reduce\<close> returns and the
  tokens of the query, the separator and the context put together are the tokens of
  the query, then those of the separator, then those of the context, each tokenized on
  its own: the condensed text decodes the kept tokens and \<open>tokens_after\<close> counts them,
  where a context of at most \<open>top_k\<close> tokens is kept unchanged, and otherwise exactly
  the first \<open>half\<close> and the last \<open>half\<close> tokens of the context are kept, in this
  order, with \<open>half = max (top_k div 2) 1\<close> on both sides.
\<close>

theorem fallback_keeps_halves:
  assumes "retrieval_heads loaded = []"
    and "tokenizer loaded (query @ sep @ context)
           = tokenizer loaded query @ tokenizer loaded sep @ tokenizer loaded context"
    and "reduce settings loaded query context top_k_opt
           = Inr (condensed, tokens_before, tokens_after)"
  shows "(let context_ids = tokenizer loaded context;
              top_k = effective_top_k settings top_k_opt;
              half = nat (max (top_k div 2) 1);
              kept = (if int (length context_ids) \<le> top_k then context_ids
                      else take half context_ids
                           @ drop (length context_ids - half) context_ids)
          in condensed = tokenizer_decode loaded kept \<and> tokens_after = int (length kept))"
proof -
  from assms(3) obtain selected where
    sel: "select_ids settings loaded query context top_k_opt = Inr selected"
    and c: "condensed = tokenizer_decode loaded selected"
    and a: "tokens_after = int (length selected)"
    by (auto simp add: reduce_Inr)
  have k: "selected
      = fallback_keep (effective_top_k settings top_k_opt) (tokenizer loaded context)"
    by (rule select_ids_fallback_context [OF assms(1) assms(2) sel])
  show ?thesis
  proof (cases "int (length (tokenizer loaded context)) \<le> effective_top_k settings top_k_opt")
    case True
    with c a k show ?thesis by (simp add: fallback_keep_short)
  next
    case False
    define kept where "kept =
      take (nat (max (effective_top_k settings top_k_opt div 2) 1)) (tokenizer loaded context)
      @ drop (length (tokenizer loaded context)
              - nat (max (effective_top_k settings top_k_opt div 2) 1))
          (tokenizer loaded context)"
    from k have "selected = kept"
      unfolding kept_def by (simp only: fallback_keep_long [OF False])
    with c a have "condensed = tokenizer_decode loaded kept \<and> tokens_after = int (length kept)"
      by simp
    then show ?thesis
      unfolding Let_def kept_def by (simp only: False if_False)
  qed
qed

theorem fallback_keeps_halves_witness:
  "retrieval_heads byte_fallback = []
   \<and> tokenizer byte_fallback (''ab'' @ sep @ ''wxyz'')
       = tokenizer byte_fallback ''ab'' @ tokenizer byte_fallback sep
         @ tokenizer byte_fallback ''wxyz''
   \<and> reduce default_settings byte_fallback ''ab'' ''wxyz'' (Some 3) = Inr (''wz'', 25, 2)
   \<and> ''wz'' = tokenizer_decode byte_fallback
                (take 1 (tokenizer byte_fallback ''wxyz'')
                 @ drop 3 (tokenizer byte_fallback ''wxyz''))
   \<and> (2::int) = int (length (take 1 (tokenizer byte_fallback ''wxyz'')
                 @ drop 3 (tokenizer byte_fallback ''wxyz'')))"
proof -
  have h: "retrieval_heads byte_fallback = []"
    by (simp add: byte_fallback_def)
  have t: "tokenizer byte_fallback (''ab'' @ sep @ ''wxyz'')
       = tokenizer byte_fallback ''ab'' @ tokenizer byte_fallback sep
         @ tokenizer byte_fallback ''wxyz''"
    by (simp add: byte_fallback_def byte_tokenizer_def)
  have r: "reduce default_settings byte_fallback ''ab'' ''wxyz'' (Some 3) = Inr (''wz'', 25, 2)"
    by (simp add: reducer_eval)
  from fallback_keeps_halves [OF h t r] h t r show ?thesis
    by (simp add: reducer_eval)
qed

text \<open>
  The claim as stated fails for an odd \<open>top_k\<close>: with \<open>top_k = 3\<close> and a context of four
  tokens the code keeps the first and the last token, where the first two and the last
  one are claimed.
\<close>

theorem odd_top_k_front_half_counterexample:
  "select_ids default_settings byte_fallback ''ab'' ''wxyz'' (Some 3)
     = Inr (byte_tokenizer ''wz'')
   \<and> spec_fallback_keep 3 (byte_tokenizer ''wxyz'') = byte_tokenizer ''wxz''
   \<and> byte_tokenizer ''wz'' \<noteq> byte_tokenizer ''wxz''"
  by (simp add: reducer_eval spec_fallback_keep_def)

text \<open>For an even \<open>top_k\<close>, and for \<open>top_k \<le> 1\<close>, the code and the claim agree.\<close>

lemma fallback_keep_agrees_with_spec:
  assumes "even top_k \<or> top_k \<le> 1"
  shows "fallback_keep top_k context_ids = spec_fallback_keep top_k context_ids"
proof (cases "int (length context_ids) \<le> top_k")
  case True
  then show ?thesis by (simp add: fallback_keep_short spec_fallback_keep_def)
next
  case False
  have "max ((top_k + 1) div 2) 1 = max (top_k div 2) 1"
  proof (cases "top_k \<le> 1")
    case True
    then have "(top_k + 1) div 2 \<le> 1" "top_k div 2 \<le> 1" by linarith+
    then show ?thesis by simp
  next
    case f: False
    with assms have "even top_k" by simp
    then have "(top_k + 1) div 2 = top_k div 2" by presburger
    then show ?thesis by simp
  qed
  with False show ?thesis by (simp add: fallback_keep_long spec_fallback_keep_def)
qed

text \<open>
  The hypothesis on the tokenizer is used: the code finds the start of the context by
  adding the lengths of the query and of the separator tokenized on their own, and a
  special token put in front of every tokenized text is counted twice, so the slice
  starts one token late.
\<close>

lemma special_token_shifts_slice:
  "reduce default_settings bos_fallback ''ab'' ''wxyz'' (Some 8) = Inr (''xyz'', 26, 3)
   \<and> start_index bos_fallback ''ab'' = Inr 23"
  by (simp add: reducer_eval bos_fallback_def bos_tokenizer_def bos_decode_def)

subsection \<open>Positions selected by relevance\<close>

text \<open>
  Claim C7 says that no query or separator position is ever selected. The code selects
  \<open>min top_k seq_len\<close> positions of the whole sequence, so when the context has fewer
  than \<open>top_k\<close> tokens the selection is filled up with masked positions. Here the
  query is two tokens and the separator nineteen, so the positions below 21 are theirs;
  the context is one token and \<open>top_k\<close> is 4: three masked positions are selected
  with the one context position. Which three is the library's choice among equal
  scores; the model takes the positions 0, 1 and 2.
\<close>

theorem oracle_selects_query_positions:
  "oracle_positions byte_oracle ''ab'' (input_ids_of byte_oracle ''ab'' ''c'') 4
     = Inr [0, 1, 2, 21]
   \<and> start_index byte_oracle ''ab'' = Inr 21"
  by (simp add: reducer_eval)

text \<open>
  The property holds when \<open>top_k\<close> is at most the number of context positions, and fails
  whenever it is larger and there is a query or separator position at all.
\<close>

lemma oracle_positions_context_only:
  assumes ps: "oracle_positions loaded query input_ids top_k = Inr ps"
    and p: "start_index loaded query = Inr p"
    and k: "top_k \<le> int (length input_ids) - int p"
  shows "\<forall>i\<in>set ps. p \<le> i \<and> i < length input_ids"
proof -
  from oracle_positions_Inr [OF ps] p obtain rel where
    len: "length rel = length input_ids"
    and k0: "0 \<le> min top_k (int (length input_ids))"
    and eq: "ps = sort (topk (mask_prefix p rel) (nat (min top_k (int (length input_ids)))))"
    by auto
  from k k0 have "nat (min top_k (int (length input_ids))) \<le> length rel - p"
    unfolding len by linarith
  from topk_unmasked [OF this] have "\<forall>i\<in>set ps. p \<le> i" by (simp add: eq)
  with oracle_positions_order [OF ps] show ?thesis by blast
qed

lemma oracle_positions_fill_up:
  assumes ps: "oracle_positions loaded query input_ids top_k = Inr ps"
    and p: "start_index loaded query = Inr p"
    and k: "int (length input_ids) - int p < top_k" and n: "p \<le> length input_ids"
    and pos: "0 < p"
  shows "\<exists>i\<in>set ps. i < p"
proof -
  from oracle_positions_Inr [OF ps] p obtain rel where
    len: "length rel = length input_ids"
    and k0: "0 \<le> min top_k (int (length input_ids))"
    and eq: "ps = sort (topk (mask_prefix p rel) (nat (min top_k (int (length input_ids)))))"
    by auto
  from k n pos have "length rel - p < nat (min top_k (int (length input_ids)))"
    unfolding len by linarith
  moreover have "nat (min top_k (int (length input_ids))) \<le> length rel"
    unfolding len by linarith
  ultimately have "\<exists>i\<in>set (topk (mask_prefix p rel) (nat (min top_k (int (length input_ids))))). i < p"
    by (rule topk_takes_masked)
  then show ?thesis by (simp add: eq)
qed

subsection \<open>Order of the selected tokens\<close>

text \<open>
  Claim C8. For every \<open>reduce\<close> call that returns, on the fallback path and on the
  oracle path, the condensed text decodes the tokens of \<open>input_ids\<close> at a list of
  positions that is ascending: the selected tokens are in their original relative
  order. For a positive \<open>top_k\<close> the positions are distinct as well, hence strictly
  ascending.
\<close>

theorem selection_preserves_order:
  assumes "reduce settings loaded query context top_k_opt
             = Inr (condensed, tokens_before, tokens_after)"
  shows "\<exists>positions. sorted positions
           \<and> (0 < effective_top_k settings top_k_opt \<longrightarrow> distinct positions)
           \<and> (\<forall>i\<in>set positions. i < length (input_ids_of loaded query context))
           \<and> condensed = tokenizer_decode loaded
                 (map (\<lambda>i. input_ids_of loaded query context ! i) positions)"
proof -
  from assms obtain selected where
    sel: "select_ids settings loaded query context top_k_opt = Inr selected"
    and c: "condensed = tokenizer_decode loaded selected"
    by (auto simp add: reduce_Inr)
  from select_ids_positions [OF sel] c show ?thesis by blast
qed

theorem selection_preserves_order_witness:
  "reduce default_settings byte_fallback ''ab'' ''wxyz'' (Some 3) = Inr (''wz'', 25, 2)
   \<and> 0 < effective_top_k default_settings (Some 3)
   \<and> (\<exists>positions. sorted positions \<and> distinct positions
         \<and> list_all (\<lambda>i. i < length (input_ids_of byte_fallback ''ab'' ''wxyz'')) positions
         \<and> ''wz'' = tokenizer_decode byte_fallback
               (map (\<lambda>i. input_ids_of byte_fallback ''ab'' ''wxyz'' ! i) positions))"
proof -
  have r: "reduce default_settings byte_fallback ''ab'' ''wxyz'' (Some 3) = Inr (''wz'', 25, 2)"
    by (simp add: reducer_eval)
  have p: "0 < effective_top_k default_settings (Some 3)"
    by (simp add: effective_top_k_def)
  from selection_preserves_order [OF r] p r show ?thesis
    by (simp only: list_all_iff simp_thms)
qed

subsection \<open>Contexts of at most \<open>top_k\<close> tokens\<close>

text \<open>
  Claim C9 says that for a context of at most \<open>top_k\<close> tokens \<open>reduce\<close> does not raise,
  returns the context text and reports \<open>tokens_before\<close> minus the query and separator
  length as \<open>tokens_after\<close>. The code does not: a query of exactly one token makes
  \<open>squeeze().tolist()\<close> a number, whose \<open>len\<close> raises \<open>TypeError\<close> (here with an empty
  context); and on the oracle path a context of one token under \<open>top_k = 4\<close> comes back
  with three query and separator tokens in front of it, and \<open>tokens_after = 4\<close> where
  \<open>22 - 21 = 1\<close> is claimed. Which three tokens is the library's choice among equal
  scores (the model takes the first three); the counts do not depend on it.
\<close>

theorem short_context_failures:
  "reduce default_settings byte_fallback ''a'' [] (Some 4) = Inl TypeError
   \<and> reduce default_settings byte_oracle ''ab'' ''c'' (Some 4)
       = Inr ([CHR ''a'', CHR ''b'', CHR 0x0A, CHR ''c''], 22, 4)
   \<and> length (tokenizer byte_oracle ''c'') = 1
   \<and> start_index byte_oracle ''ab'' = Inr 21"
  by (simp add: reducer_eval)

text \<open>
  On the fallback path the claim holds for a tokenizer that tokenizes the query, the
  separator and the context independently and that decoding inverts on the context,
  as long as no \<open>squeeze\<close> meets a sequence of exactly one token.
\<close>

lemma reduce_short_context_fallback:
  assumes heads: "retrieval_heads loaded = []"
    and comp: "tokenizer loaded (query @ sep @ context)
                 = tokenizer loaded query @ tokenizer loaded sep @ tokenizer loaded context"
    and inv: "tokenizer_decode loaded (tokenizer loaded context) = context"
    and q1: "length (tokenizer loaded query) \<noteq> 1"
    and s1: "length (tokenizer loaded sep) \<noteq> 1"
    and n1: "length (tokenizer loaded (query @ sep @ context)) \<noteq> 1"
    and short: "int (length (tokenizer loaded context)) \<le> effective_top_k settings top_k_opt"
  shows "reduce settings loaded query context top_k_opt
           = Inr (context, int (length (tokenizer loaded (query @ sep @ context))),
                  int (length (tokenizer loaded (query @ sep @ context)))
                  - int (length (tokenizer loaded query) + length (tokenizer loaded sep)))"
proof -
  have st: "start_index loaded query
              = Inr (length (tokenizer loaded query) + length (tokenizer loaded sep))"
    using q1 s1 by (simp add: start_index_def squeeze_tolist_cases py_len_def)
  have sl: "slice_from (tokenizer loaded (query @ sep @ context))
              (int (length (tokenizer loaded query) + length (tokenizer loaded sep)))
            = tokenizer loaded context"
    by (simp only: slice_from_nat) (simp add: comp)
  have "select_ids settings loaded query context top_k_opt = Inr (tokenizer loaded context)"
    using heads n1 short
    by (simp add: select_ids_cases fallback_select_def st input_ids_of_def py_slice_from_def
        squeeze_tolist_cases sl fallback_keep_short del: of_nat_add)
  then show ?thesis
    by (simp add: reduce_def Let_def input_ids_of_def inv comp)
qed

subsection \<open>Compression never adds tokens\<close>

text \<open>
  Claim C10. For every \<open>reduce\<close> call that returns, on both paths, and so for every
  \<open>compress\<close> call that returns, \<open>tokens_after \<le> tokens_before\<close>: the saving
  \<open>tokens_before - tokens_after\<close> reported to the caller is never negative.
\<close>

theorem tokens_after_le_before:
  assumes "reduce settings loaded query context top_k_opt
             = Inr (condensed, tokens_before, tokens_after)
           \<or> compress settings loaded query context
             = Inr (condensed, tokens_before, tokens_after)"
  shows "tokens_after \<le> tokens_before \<and> 0 \<le> tokens_before - tokens_after"
proof -
  from assms obtain k where
    "reduce settings loaded query context k = Inr (condensed, tokens_before, tokens_after)"
    by (auto simp add: compress_def)
  then obtain selected where
    sel: "select_ids settings loaded query context k = Inr selected"
    and "tokens_before = int (length (input_ids_of loaded query context))"
    and "tokens_after = int (length selected)"
    by (auto simp add: reduce_Inr)
  with select_ids_length_le [OF sel] show ?thesis
    by simp
qed

theorem tokens_after_le_before_witness:
  "reduce default_settings byte_fallback ''ab'' ''wxyz'' (Some 3) = Inr (''wz'', 25, 2)
   \<and> (2::int) \<le> 25"
proof -
  have r: "reduce default_settings byte_fallback ''ab'' ''wxyz'' (Some 3) = Inr (''wz'', 25, 2)"
    by (simp add: reducer_eval)
  then have d: "reduce default_settings byte_fallback ''ab'' ''wxyz'' (Some 3)
                  = Inr (''wz'', 25, 2)
                \<or> compress default_settings byte_fallback ''ab'' ''wxyz''
                  = Inr (''wz'', 25, 2)"
    by (rule disjI1)
  from tokens_after_le_before [OF d] r
  show ?thesis by simp
qed

end
